theory Spec2Isabelle
  imports Complex_Main
begin

section \<open>The GICS code model (src/GICS.js)\<close>

text \<open>
  The module holds a registry \<^verbatim>\<open>definitions\<close> of versioned definition tables and a
  class \<^verbatim>\<open>GICS\<close>. The tables themselves (\<^verbatim>\<open>../definitions/*\<close>) are loaded with
  \<^verbatim>\<open>require\<close> and are not part of the module, so they are parameters of the model.

  Objects are kept in an explicit store: a table maps a key to the address of its entry
  object, the store maps every address to the three properties of the object that the
  module reads or writes (\<^verbatim>\<open>name\<close>, \<^verbatim>\<open>description\<close>, \<^verbatim>\<open>code\<close>). A property that
  is absent (\<^verbatim>\<open>undefined\<close>) is \<open>None\<close>. A string is a list of characters, one per
  code unit, so \<open>length\<close> is the JavaScript \<^verbatim>\<open>.length\<close>.
\<close>

subsection \<open>Objects, tables and the store\<close>

type_synonym addr = nat

record entry =
  name :: string
  description :: "string option"
  code :: "string option"

type_synonym heap = "addr \<Rightarrow> entry"

text \<open>
  A table is the list of its own enumerable properties, in the order of
  \<^verbatim>\<open>Object.keys\<close>: the key and the address of the entry object stored under it.
\<close>

type_synonym table = "(string \<times> addr) list"

text \<open>
  A property read \<^verbatim>\<open>obj[k]\<close> on a plain object looks at the object's own properties
  and then at its prototype. The registry is an object literal and the tables are plain
  objects as well, so their prototype is \<^verbatim>\<open>Object.prototype\<close>, whose members (all of
  them functions or objects, hence truthy) are found under the names below when the
  object has no own property of that name.
\<close>

datatype 'a property = Own 'a | Inherited | Absent

definition Object_prototype :: "string list" where
  "Object_prototype =
     [''constructor'', ''__defineGetter__'', ''__defineSetter__'', ''hasOwnProperty'',
      ''__lookupGetter__'', ''__lookupSetter__'', ''isPrototypeOf'',
      ''propertyIsEnumerable'', ''toString'', ''valueOf'', ''__proto__'',
      ''toLocaleString'']"

definition get_prop :: "(string \<times> 'a) list \<Rightarrow> string \<Rightarrow> 'a property" where
  "get_prop obj k =
     (case map_of obj k of
        Some v \<Rightarrow> Own v
      | None \<Rightarrow> if k \<in> set Object_prototype then Inherited else Absent)"

text \<open>
  Outcomes of a call: a value, a thrown exception, or \<open>Outside\<close>: the call goes on to
  read or write a property of a built-in object of the host (a member of
  \<^verbatim>\<open>Object.prototype\<close>), where the result is no longer determined by the module and
  its tables. The model stops there.
\<close>

datatype error = Error string | TypeError

datatype 'a outcome = Return 'a | Throw error | Outside

subsection \<open>The registry (lines 3-9)\<close>

record registry =
  defs20140228 :: table
  defs20160901 :: table
  defs20180929 :: table
  defs20230318 :: table

definition definitions :: "registry \<Rightarrow> (string \<times> table) list" where
  "definitions reg =
     [(''20140228'', defs20140228 reg),
      (''20160901'', defs20160901 reg),
      (''20180929'', defs20180929 reg),
      (''20230318'', defs20230318 reg),
      (''default'', defs20230318 reg)]"

subsection \<open>The module function level (lines 242-244)\<close>

text \<open>\<^verbatim>\<open>gicsCode ? Math.floor(gicsCode.length / 2) : 0\<close>; \<open>None\<close> is \<^verbatim>\<open>null\<close>.\<close>

definition level :: "string option \<Rightarrow> int" where
  "level gicsCode =
     (case gicsCode of
        None \<Rightarrow> 0
      | Some s \<Rightarrow> if s = [] then 0 else int (length s div 2))"

text \<open>
  \<^verbatim>\<open>k.startsWith(p)\<close>; the argument is converted to a string, \<^verbatim>\<open>null\<close> to
  \<^verbatim>\<open>"null"\<close>.
\<close>

definition startsWith :: "string \<Rightarrow> string option \<Rightarrow> bool" where
  "startsWith k p =
     (let s = (case p of None \<Rightarrow> ''null'' | Some s \<Rightarrow> s)
      in take (length s) k = s)"

subsection \<open>The class GICS\<close>

text \<open>
  The fields of an instance. \<open>this_levels\<close> holds the addresses of the entry objects
  (\<open>None\<close> for \<^verbatim>\<open>null\<close>); it is \<open>[]\<close> while \<^verbatim>\<open>_levels\<close> is unassigned, which no
  method can tell apart because \<^verbatim>\<open>level\<close> tests \<^verbatim>\<open>isValid\<close> first.
\<close>

record entity =
  this_definitionVersion :: string
  this_code :: "string option"
  isValid :: bool
  this_levels :: "addr option list"

text \<open>The getter \<^verbatim>\<open>_definition\<close> (lines 62-64).\<close>

definition this_definition :: "registry \<Rightarrow> entity \<Rightarrow> table property" where
  "this_definition reg e = get_prop (definitions reg) (this_definitionVersion e)"

text \<open>
  \<^verbatim>\<open>_getDefinition\<close> (lines 56-60): reads the entry object of the key, assigns its
  \<^verbatim>\<open>code\<close> property in place and returns the same object. An assignment to a
  property of \<^verbatim>\<open>undefined\<close> throws a TypeError.
\<close>

definition getDefinition :: "table property \<Rightarrow> string \<Rightarrow> heap \<Rightarrow> addr outcome \<times> heap" where
  "getDefinition def gicsCode h =
     (case def of
        Absent \<Rightarrow> (Throw TypeError, h)
      | Inherited \<Rightarrow> (Outside, h)
      | Own t \<Rightarrow>
          (case get_prop t gicsCode of
             Absent \<Rightarrow> (Throw TypeError, h)
           | Inherited \<Rightarrow> (Outside, h)
           | Own a \<Rightarrow> (Return a, h(a := (h a)\<lparr>code := Some gicsCode\<rparr>))))"

text \<open>
  Sequencing of calls that may throw and that change the store: \<open>bind\<close> runs the
  second call in the store the first one leaves, unless the first one throws;
  \<open>yield\<close> is a value that leaves the store as it is.
\<close>

definition bind ::
  "(heap \<Rightarrow> 'a outcome \<times> heap) \<Rightarrow> ('a \<Rightarrow> heap \<Rightarrow> 'b outcome \<times> heap) \<Rightarrow> heap \<Rightarrow> 'b outcome \<times> heap"
where
  "bind m f h =
     (case m h of
        (Return x, h') \<Rightarrow> f x h'
      | (Throw e, h') \<Rightarrow> (Throw e, h')
      | (Outside, h') \<Rightarrow> (Outside, h'))"

definition yield :: "'a \<Rightarrow> heap \<Rightarrow> 'a outcome \<times> heap" where
  "yield x h = (Return x, h)"

text \<open>
  The argument \<^verbatim>\<open>code\<close> of the constructor: a string, or a value of another type
  (\<^verbatim>\<open>undefined\<close> when omitted, \<^verbatim>\<open>null\<close>, a number, ...).
\<close>

datatype jscode = Str string | NotString

text \<open>
  The error message of line 29: the template prints the version and the array
  \<^verbatim>\<open>Object.keys(definitions)\<close>, whose text is its elements joined by commas.
\<close>

fun join :: "string list \<Rightarrow> string" where
  "join [] = []"
| "join [x] = x"
| "join (x # y # ys) = x @ '','' @ join (y # ys)"

definition unsupported :: "registry \<Rightarrow> string \<Rightarrow> string" where
  "unsupported reg version =
     ''Unsupported GICS version: '' @ version @ ''. Available versions are ''
       @ join (map fst (definitions reg))"

text \<open>\<^verbatim>\<open>version || "default"\<close> (line 25); \<open>None\<close> is an omitted version.\<close>

definition defName :: "string option \<Rightarrow> string" where
  "defName version =
     (case version of None \<Rightarrow> ''default'' | Some v \<Rightarrow> if v = [] then ''default'' else v)"

text \<open>
  The value assigned to \<^verbatim>\<open>isValid\<close> (lines 35-43) for a string \<^verbatim>\<open>code\<close>. The
  conjunction stops at its first false operand; its last operand reads
  \<^verbatim>\<open>this._definition[code]\<close>, which is truthy for an own entry and for an inherited
  member alike.
\<close>

definition validity :: "table property \<Rightarrow> string \<Rightarrow> bool outcome" where
  "validity def s =
     (if s = [] then Return False
      else if \<not> 2 \<le> length s then Return False
      else if \<not> length s \<le> 8 then Return False
      else if length s mod 2 \<noteq> 0 then Return False
      else (case def of
              Absent \<Rightarrow> Throw TypeError
            | Inherited \<Rightarrow> Outside
            | Own t \<Rightarrow> Return (get_prop t s \<noteq> Absent)))"

text \<open>The array literal of lines 45-50, its elements evaluated from left to right.\<close>

definition optional ::
  "bool \<Rightarrow> (heap \<Rightarrow> addr outcome \<times> heap) \<Rightarrow> heap \<Rightarrow> addr option outcome \<times> heap"
where
  "optional b m = (if b then bind m (\<lambda>a. yield (Some a)) else yield None)"

definition levels :: "table property \<Rightarrow> string \<Rightarrow> heap \<Rightarrow> addr option list outcome \<times> heap" where
  "levels def s =
     bind (getDefinition def (take 2 s)) (\<lambda>l0.
     bind (optional (4 \<le> length s) (getDefinition def (take 4 s))) (\<lambda>l1.
     bind (optional (6 \<le> length s) (getDefinition def (take 6 s))) (\<lambda>l2.
     bind (optional (length s = 8) (getDefinition def (take 8 s))) (\<lambda>l3.
     yield [Some l0, l1, l2, l3]))))"

text \<open>
  The constructor (lines 24-54). A \<^verbatim>\<open>code\<close> that is not a string fails the test of
  line 37 (or that of line 36), so the instance is invalid without a look at the table.
\<close>

definition invalid :: "string \<Rightarrow> entity" where
  "invalid v = \<lparr>this_definitionVersion = v, this_code = None, isValid = False, this_levels = []\<rparr>"

definition constructor ::
  "registry \<Rightarrow> jscode \<Rightarrow> string option \<Rightarrow> heap \<Rightarrow> entity outcome \<times> heap"
where
  "constructor reg c version h =
     (let def = get_prop (definitions reg) (defName version) in
      if def = Absent
      then (Throw (Error (unsupported reg
                (case version of None \<Rightarrow> ''undefined'' | Some v \<Rightarrow> v))), h)
      else
        (case c of
           NotString \<Rightarrow> (Return (invalid (defName version)), h)
         | Str s \<Rightarrow>
             (case validity def s of
                Throw e \<Rightarrow> (Throw e, h)
              | Outside \<Rightarrow> (Outside, h)
              | Return valid \<Rightarrow>
                  if valid
                  then bind (levels def s) (\<lambda>ls. yield
                         \<lparr>this_definitionVersion = defName version, this_code = Some s,
                          isValid = True, this_levels = ls\<rparr>) h
                  else (Return (invalid (defName version)), h))))"

subsection \<open>The method level and the four accessors (lines 71-118)\<close>

text \<open>
  The argument of \<^verbatim>\<open>level\<close> is any value: a number (a rational, since every finite
  double is one, and the comparisons with 1 and 4 and the subtraction of 1 from a number
  between them are exact), \<^verbatim>\<open>NaN\<close>, an infinity, or a value that is not a number, of
  which only the truthiness matters.
\<close>

datatype jsvalue = Number rat | NaN | PosInfinity | NegInfinity | NotNumber bool

text \<open>
  What the method returns: \<^verbatim>\<open>null\<close>, \<^verbatim>\<open>undefined\<close>, or the entry object at an
  address.
\<close>

datatype result = Null | Undefined | Object addr

text \<open>
  \<^verbatim>\<open>xs[i]\<close> on an array with a number \<^verbatim>\<open>i\<close>: the element when \<^verbatim>\<open>i\<close> is an index
  of the array, \<^verbatim>\<open>undefined\<close> otherwise (an array has no property named \<^verbatim>\<open>1.5\<close>).
\<close>

definition element :: "addr option list \<Rightarrow> rat \<Rightarrow> result" where
  "element xs i =
     (case find (\<lambda>k. of_nat k = i) [0..<length xs] of
        None \<Rightarrow> Undefined
      | Some k \<Rightarrow> (case xs ! k of None \<Rightarrow> Null | Some a \<Rightarrow> Object a))"

definition GICS_level :: "entity \<Rightarrow> jsvalue \<Rightarrow> result" where
  "GICS_level e gicsLevel =
     (if \<not> isValid e then Null
      else (case gicsLevel of
              NotNumber truthy \<Rightarrow> Null
            | NaN \<Rightarrow> Null
            | NegInfinity \<Rightarrow> Null
            | PosInfinity \<Rightarrow> Null
            | Number n \<Rightarrow>
                if n = 0 then Null
                else if n < 1 then Null
                else if n > 4 then Null
                else element (this_levels e) (n - 1)))"

definition sector :: "entity \<Rightarrow> result" where
  "sector e = GICS_level e (Number 1)"

definition industryGroup :: "entity \<Rightarrow> result" where
  "industryGroup e = GICS_level e (Number 2)"

definition industry :: "entity \<Rightarrow> result" where
  "industry e = GICS_level e (Number 3)"

definition subIndustry :: "entity \<Rightarrow> result" where
  "subIndustry e = GICS_level e (Number 4)"

subsection \<open>Children (lines 128-152)\<close>

text \<open>
  \<^verbatim>\<open>getChildren\<close> filters \<^verbatim>\<open>Object.keys(this._definition)\<close> and builds a new object
  for every key that is left, from the key and from the \<^verbatim>\<open>name\<close> and
  \<^verbatim>\<open>description\<close> of the entry stored under it. The depth is an integer.
  \<^verbatim>\<open>Object.keys(undefined)\<close> throws; a member of \<^verbatim>\<open>Object.prototype\<close> has no
  enumerable property of its own.
\<close>

definition childEntry :: "heap \<Rightarrow> string \<times> addr \<Rightarrow> entry" where
  "childEntry h ka = \<lparr>name = name (h (snd ka)), description = description (h (snd ka)),
                code = Some (fst ka)\<rparr>"

definition getChildren :: "registry \<Rightarrow> heap \<Rightarrow> entity \<Rightarrow> int \<Rightarrow> entry list outcome" where
  "getChildren reg h e depth =
     (case this_definition reg e of
        Absent \<Rightarrow> Throw TypeError
      | Inherited \<Rightarrow> Return []
      | Own t \<Rightarrow>
          Return (map (childEntry h)
            (if isValid e
             then filter (\<lambda>ka. startsWith (fst ka) (this_code e)
                           \<and> level (this_code e) + depth = level (Some (fst ka))) t
             else filter (\<lambda>ka. level (Some (fst ka)) = depth) t)))"

definition children :: "registry \<Rightarrow> heap \<Rightarrow> entity \<Rightarrow> entry list outcome" where
  "children reg h e = getChildren reg h e 1"

subsection \<open>Relations between two instances (lines 176-222)\<close>

text \<open>
  The conjunctions stop at the first false operand. A method call or a property read on
  \<^verbatim>\<open>null\<close> throws a TypeError.
\<close>

definition isWithin :: "entity \<Rightarrow> entity \<Rightarrow> bool outcome" where
  "isWithin this anotherGics =
     (if \<not> isValid this then Return False
      else if \<not> isValid anotherGics then Return False
      else if this_code this = this_code anotherGics then Return False
      else (case this_code this of
              None \<Rightarrow> Throw TypeError
            | Some c \<Rightarrow> Return (startsWith c (this_code anotherGics))))"

definition isImmediateWithin :: "entity \<Rightarrow> entity \<Rightarrow> bool outcome" where
  "isImmediateWithin this anotherGics =
     (if \<not> isValid this then Return False
      else if \<not> isValid anotherGics then Return False
      else if this_code this = this_code anotherGics then Return False
      else (case this_code this of
              None \<Rightarrow> Throw TypeError
            | Some c \<Rightarrow>
                if \<not> startsWith c (this_code anotherGics) then Return False
                else (case this_code anotherGics of
                        None \<Rightarrow> Throw TypeError
                      | Some c' \<Rightarrow> Return (length c = length c' + 2))))"

definition contains :: "entity \<Rightarrow> entity \<Rightarrow> bool outcome" where
  "contains this anotherGics = isWithin anotherGics this"

definition containsImmediate :: "entity \<Rightarrow> entity \<Rightarrow> bool outcome" where
  "containsImmediate this anotherGics = isImmediateWithin anotherGics this"

subsection \<open>Search by name (lines 229-239)\<close>

text \<open>
  The deepest level of a key of the definition object of an instance: no depth beyond it
  has children, which bounds the recursion of \<^verbatim>\<open>findDeep\<close>.
\<close>

definition deepest :: "registry \<Rightarrow> entity \<Rightarrow> int" where
  "deepest reg e =
     (case this_definition reg e of
        Own t \<Rightarrow> Max (set (0 # map (\<lambda>ka. level (Some (fst ka))) t))
      | _ \<Rightarrow> 0)"

text \<open>
  \<^verbatim>\<open>findDeep\<close> (lines 230-236): \<^verbatim>\<open>child || findDeep(depth + 1)\<close> yields the object found,
  which is truthy, and otherwise searches one level deeper. \<open>None\<close> is \<^verbatim>\<open>null\<close>.
\<close>

function findDeep :: "registry \<Rightarrow> heap \<Rightarrow> entity \<Rightarrow> string \<Rightarrow> int \<Rightarrow> entry option outcome" where
  "findDeep reg h e childName depth =
     (case getChildren reg h e depth of
        Throw err \<Rightarrow> Throw err
      | Outside \<Rightarrow> Outside
      | Return cs \<Rightarrow>
          if cs = [] then Return None
          else (case find (\<lambda>child. name child = childName) cs of
                  Some child \<Rightarrow> Return (Some child)
                | None \<Rightarrow> findDeep reg h e childName (depth + 1)))"
  by pat_completeness auto
termination
proof (relation "measure (\<lambda>(reg, h, e, childName, depth). nat (deepest reg e + 1 - depth))")
  show "wf (measure (\<lambda>(reg, h, e, childName :: string, depth). nat (deepest reg e + 1 - depth)))"
    by simp
next
  fix reg h e and childName :: string and depth cs
  assume cs: "getChildren reg h e depth = Return cs" "cs \<noteq> []"
  then obtain t where t: "this_definition reg e = Own t"
    by (auto simp: getChildren_def split: property.splits)
  let ?P = "\<lambda>ka. if isValid e
     then startsWith (fst ka) (this_code e) \<and> level (this_code e) + depth = level (Some (fst ka))
     else level (Some (fst ka)) = depth"
  from cs t have "filter ?P t \<noteq> []"
    by (auto simp: getChildren_def split: if_splits)
  then obtain ka where ka: "ka \<in> set t" "?P ka"
    by (auto simp: filter_empty_conv)
  have "0 \<le> level (this_code e)"
    by (simp add: level_def split: option.splits)
  with ka have "depth \<le> level (Some (fst ka))"
    by (auto split: if_splits)
  also from ka t have "level (Some (fst ka)) \<le> deepest reg e"
    by (simp add: deepest_def)
  finally show "((reg, h, e, childName, depth + 1), (reg, h, e, childName, depth))
      \<in> measure (\<lambda>(reg, h, e, childName, depth). nat (deepest reg e + 1 - depth))"
    by simp
qed

definition findChild :: "registry \<Rightarrow> heap \<Rightarrow> entity \<Rightarrow> string \<Rightarrow> entry option outcome" where
  "findChild reg h e childName = findDeep reg h e childName 1"

subsection \<open>Well-formed tables and an example\<close>

text \<open>
  The tables the module is written for, as the data model of the specification describes
  a Definition Table: every key has 2, 4, 6 or 8 characters, the prefixes of a key of
  lengths 2, 4 and 6 are keys as well, and no key occurs twice (the keys of an object).
\<close>

definition wf_table :: "table \<Rightarrow> bool" where
  "wf_table t \<longleftrightarrow>
     distinct (map fst t) \<and>
     (\<forall>k \<in> set (map fst t). length k \<in> {2, 4, 6, 8} \<and>
        (\<forall>n \<in> {2, 4, 6}. n < length k \<longrightarrow> take n k \<in> set (map fst t)))"

text \<open>A small table, a registry that holds it as its latest version, and a store.\<close>

definition table0 :: table where
  "table0 = [(''10'', 0), (''15'', 1), (''1010'', 2), (''1510'', 3), (''101010'', 4),
             (''101020'', 5), (''10101010'', 6), (''10101020'', 7)]"

definition registry0 :: registry where
  "registry0 = \<lparr>defs20140228 = [], defs20160901 = [], defs20180929 = [],
                 defs20230318 = table0\<rparr>"

definition heap0 :: heap where
  "heap0 a =
     (if a = 0 then \<lparr>name = ''Energy'', description = None, code = None\<rparr>
      else if a = 1 then \<lparr>name = ''Materials'', description = None, code = None\<rparr>
      else if a = 2 then \<lparr>name = ''Energy'', description = None, code = None\<rparr>
      else if a = 6 then \<lparr>name = ''Oil & Gas Drilling'', description = Some ''Drilling contractors'', code = None\<rparr>
      else \<lparr>name = ''Other'', description = None, code = None\<rparr>)"

text \<open>A valid instance of the example: the sector 10 under the latest version.\<close>

definition energy :: entity where
  "energy = \<lparr>this_definitionVersion = ''default'', this_code = Some ''10'', isValid = True,
              this_levels = [Some 0, None, None, None]\<rparr>"

text \<open>Two more: the industry group 1010 and the industry 101010.\<close>

definition energyGroup :: entity where
  "energyGroup = \<lparr>this_definitionVersion = ''default'', this_code = Some ''1010'',
     isValid = True, this_levels = [Some 0, Some 2, None, None]\<rparr>"

definition energyEquipment :: entity where
  "energyEquipment = \<lparr>this_definitionVersion = ''default'', this_code = Some ''101010'',
     isValid = True, this_levels = [Some 0, Some 2, Some 4, None]\<rparr>"

text \<open>
  A well-formed table whose two keys hold one and the same object, and a registry for it.
\<close>

definition table1 :: table where
  "table1 = [(''10'', 0), (''1010'', 0)]"

definition registry1 :: registry where
  "registry1 = \<lparr>defs20140228 = [], defs20160901 = [], defs20180929 = [],
                 defs20230318 = table1\<rparr>"

subsection \<open>The store after a construction\<close>

text \<open>
  The prefixes of a code that the constructor looks up, and the store in which the
  entries of a list of keys have been given their keys as \<^verbatim>\<open>code\<close>, one after the other.
\<close>

definition prefixes :: "string \<Rightarrow> string list" where
  "prefixes s = map (\<lambda>n. take n s) (filter (\<lambda>n. n \<le> length s) [2, 4, 6, 8])"

fun stamped :: "table \<Rightarrow> string list \<Rightarrow> heap \<Rightarrow> heap" where
  "stamped t [] h = h"
| "stamped t (k # ks) h =
     stamped t ks (case map_of t k of Some a \<Rightarrow> h(a := (h a)\<lparr>code := Some k\<rparr>) | None \<Rightarrow> h)"

section \<open>Basic facts\<close>

subsection \<open>Property reads and sequencing\<close>

lemma get_prop_Own: "get_prop obj k = Own v \<longleftrightarrow> map_of obj k = Some v"
  by (simp add: get_prop_def split: option.splits)

lemma get_prop_Absent:
  "get_prop obj k = Absent \<longleftrightarrow> k \<notin> set (map fst obj) \<and> k \<notin> set Object_prototype"
  by (cases "map_of obj k") (simp_all add: get_prop_def map_of_eq_None_iff[symmetric])

lemma getDefinition_Own:
  "map_of t k = Some a \<Longrightarrow>
   getDefinition (Own t) k h = (Return a, h(a := (h a)\<lparr>code := Some k\<rparr>))"
  by (simp add: getDefinition_def get_prop_def)

lemma getDefinition_Return:
  "getDefinition def k h = (Return a, h') \<Longrightarrow>
   \<exists>t. def = Own t \<and> map_of t k = Some a \<and> h' = h(a := (h a)\<lparr>code := Some k\<rparr>)"
  by (auto simp: getDefinition_def get_prop_Own split: property.splits)

lemma getDefinition_no_Error: "getDefinition def k h \<noteq> (Throw (Error m), h')"
  by (auto simp: getDefinition_def split: property.splits)

lemma bind_Return:
  "bind m f h = (Return y, h'') \<longleftrightarrow> (\<exists>x h'. m h = (Return x, h') \<and> f x h' = (Return y, h''))"
  by (auto simp: bind_def split: prod.splits outcome.splits)

lemma bind_Throw:
  "bind m f h = (Throw e, h'') \<longleftrightarrow>
     m h = (Throw e, h'') \<or> (\<exists>x h'. m h = (Return x, h') \<and> f x h' = (Throw e, h''))"
  by (auto simp: bind_def split: prod.splits outcome.splits)

lemma yield_Return: "yield x h = (Return y, h') \<longleftrightarrow> y = x \<and> h' = h"
  by (auto simp: yield_def)

lemma optional_Return:
  "optional b m h = (Return y, h') \<longleftrightarrow>
     (if b then \<exists>a. m h = (Return a, h') \<and> y = Some a else y = None \<and> h' = h)"
  by (auto simp: optional_def bind_Return yield_Return)

subsection \<open>What a returned instance tells about its construction\<close>

lemma levels_Return_key:
  assumes "levels def s h = (Return ls, h')" and "length s = 2 \<or> length s = 4 \<or> length s = 6 \<or> length s = 8"
  shows "\<exists>t a. def = Own t \<and> map_of t s = Some a"
  using assms
  apply (simp add: levels_def bind_Return yield_Return optional_Return)
  apply (elim exE conjE disjE)
  apply (auto dest!: getDefinition_Return split: if_splits)
  done

lemma levels_no_Error: "levels def s h \<noteq> (Throw (Error m), h')"
  by (auto simp: levels_def bind_Throw optional_def yield_def getDefinition_no_Error split: if_splits)

lemma validity_Return:
  "validity def s = Return b \<longleftrightarrow>
     (if s \<noteq> [] \<and> 2 \<le> length s \<and> length s \<le> 8 \<and> even (length s)
      then \<exists>t. def = Own t \<and> b = (get_prop t s \<noteq> Absent)
      else \<not> b)"
  by (auto simp: validity_def split: property.splits)

lemma validity_no_Error: "validity def s \<noteq> Throw (Error m)"
  by (auto simp: validity_def split: property.splits)

lemma even_length_cases:
  "2 \<le> n \<Longrightarrow> n \<le> 8 \<Longrightarrow> even n \<Longrightarrow> n = 2 \<or> n = 4 \<or> n = 6 \<or> n = (8::nat)"
  by presburger

lemma constructor_Return:
  assumes "constructor reg c version h = (Return e, h')"
  shows "this_definitionVersion e = defName version"
    and "this_definition reg e \<noteq> Absent"
    and "isValid e \<Longrightarrow> \<exists>s t a. c = Str s \<and> this_code e = Some s \<and> this_definition reg e = Own t
            \<and> map_of t s = Some a \<and> (length s = 2 \<or> length s = 4 \<or> length s = 6 \<or> length s = 8)"
    and "\<not> isValid e \<Longrightarrow> e = invalid (defName version) \<and> h' = h"
proof -
  let ?def = "get_prop (definitions reg) (defName version)"
  from assms have def: "?def \<noteq> Absent"
    by (auto simp: constructor_def Let_def split: if_splits)
  show v: "this_definitionVersion e = defName version"
    using assms def
    by (auto simp: constructor_def Let_def invalid_def bind_Return yield_Return
        split: jscode.splits outcome.splits if_splits)
  with def show "this_definition reg e \<noteq> Absent"
    by (simp add: this_definition_def)
  show "\<not> isValid e \<Longrightarrow> e = invalid (defName version) \<and> h' = h"
    using assms def
    by (auto simp: constructor_def Let_def invalid_def bind_Return yield_Return
        split: jscode.splits outcome.splits if_splits)
  assume "isValid e"
  with assms def obtain s ls where s: "c = Str s" "validity ?def s = Return True"
      "levels ?def s h = (Return ls, h')" "this_code e = Some s"
    by (auto simp: constructor_def Let_def invalid_def bind_Return yield_Return
        split: jscode.splits outcome.splits if_splits)
  from s(2) have len: "length s = 2 \<or> length s = 4 \<or> length s = 6 \<or> length s = 8"
    by (auto simp: validity_Return split: if_splits dest: even_length_cases)
  from levels_Return_key[OF s(3) len] obtain t a where "?def = Own t" "map_of t s = Some a"
    by blast
  with s len v show "\<exists>s t a. c = Str s \<and> this_code e = Some s \<and> this_definition reg e = Own t
            \<and> map_of t s = Some a \<and> (length s = 2 \<or> length s = 4 \<or> length s = 6 \<or> length s = 8)"
    by (auto simp: this_definition_def)
qed

subsection \<open>Well-formed tables\<close>

lemma wf_table_length:
  "wf_table t \<Longrightarrow> ka \<in> set t \<Longrightarrow>
   length (fst ka) = 2 \<or> length (fst ka) = 4 \<or> length (fst ka) = 6 \<or> length (fst ka) = 8"
  by (auto simp: wf_table_def)

lemma wf_table_key:
  assumes "wf_table t" and "map_of t s = Some a"
  shows "length s = 2 \<or> length s = 4 \<or> length s = 6 \<or> length s = 8"
    and "n \<in> {2, 4, 6, 8} \<Longrightarrow> n \<le> length s \<Longrightarrow> \<exists>b. map_of t (take n s) = Some b"
proof -
  from assms(2) have s: "s \<in> set (map fst t)"
    by (metis map_of_SomeD fst_conv image_eqI set_map)
  with assms(1) show len: "length s = 2 \<or> length s = 4 \<or> length s = 6 \<or> length s = 8"
    by (auto simp: wf_table_def)
  assume n: "n \<in> {2, 4, 6, 8}" "n \<le> length s"
  show "\<exists>b. map_of t (take n s) = Some b"
  proof (cases "n = length s")
    case True
    with assms(2) show ?thesis by simp
  next
    case False
    with n len have "n \<in> {2, 4, 6}" "n < length s" by auto
    with assms(1) s have "take n s \<in> set (map fst t)"
      unfolding wf_table_def by blast
    then show ?thesis
      by (metis map_of_eq_None_iff not_Some_eq set_map)
  qed
qed

lemma wf_table_parent:
  assumes "wf_table t" and "ka \<in> set t" and "4 \<le> length (fst ka)"
  shows "\<exists>kb \<in> set t. fst kb = take (length (fst ka) - 2) (fst ka)"
proof -
  let ?k = "fst ka"
  from wf_table_length[OF assms(1,2)] assms(3)
  have "length ?k - 2 \<in> {2, 4, 6}" "length ?k - 2 < length ?k" by auto
  moreover from assms(2) have "?k \<in> set (map fst t)" by simp
  ultimately have "take (length ?k - 2) ?k \<in> set (map fst t)"
    using assms(1) unfolding wf_table_def by blast
  then show ?thesis by force
qed

lemma level_key:
  "length k = 2 \<or> length k = 4 \<or> length k = 6 \<or> length k = 8 \<Longrightarrow> 2 * level (Some k) = int (length k)"
  by (auto simp: level_def)

lemma filter_key:
  "distinct (map fst t) \<Longrightarrow> map_of t s = Some a \<Longrightarrow> filter (\<lambda>ka. fst ka = s) t = [(s, a)]"
proof (induction t)
  case Nil
  then show ?case by simp
next
  case (Cons x t)
  show ?case
  proof (cases "fst x = s")
    case True
    with Cons.prems have "x = (s, a)" by (cases x) simp
    moreover have "filter (\<lambda>ka. fst ka = s) t = []"
    proof -
      from True Cons.prems have "s \<notin> fst ` set t" by simp
      then have "\<forall>ka \<in> set t. fst ka \<noteq> s" by blast
      then show ?thesis by (simp add: filter_empty_conv)
    qed
    ultimately show ?thesis by simp
  next
    case False
    with Cons show ?thesis by (cases x) simp
  qed
qed

subsection \<open>Construction from a key of a well-formed table\<close>

lemma levels_wf:
  assumes "wf_table t" and "map_of t s = Some a"
  shows "levels (Own t) s h =
    (Return (map (\<lambda>n. if n \<le> length s then map_of t (take n s) else None) [2, 4, 6, 8]),
     stamped t (prefixes s) h)"
proof -
  note key = wf_table_key[OF assms]
  from key(1) consider "length s = 2" | "length s = 4" | "length s = 6" | "length s = 8" by blast
  then show ?thesis
  proof cases
    case 1
    with assms(2) show ?thesis
      by (simp add: levels_def bind_def optional_def yield_def getDefinition_Own prefixes_def)
  next
    case 2
    with key(2)[of 2] obtain a2 where "map_of t (take 2 s) = Some a2" by auto
    with 2 assms(2) show ?thesis
      by (simp add: levels_def bind_def optional_def yield_def getDefinition_Own prefixes_def)
  next
    case 3
    with key(2)[of 2] key(2)[of 4] obtain a2 a4 where
      "map_of t (take 2 s) = Some a2" "map_of t (take 4 s) = Some a4" by auto
    with 3 assms(2) show ?thesis
      by (simp add: levels_def bind_def optional_def yield_def getDefinition_Own prefixes_def)
  next
    case 4
    with key(2)[of 2] key(2)[of 4] key(2)[of 6] obtain a2 a4 a6 where
      "map_of t (take 2 s) = Some a2" "map_of t (take 4 s) = Some a4"
      "map_of t (take 6 s) = Some a6" by auto
    with 4 assms(2) show ?thesis
      by (simp add: levels_def bind_def optional_def yield_def getDefinition_Own prefixes_def)
  qed
qed

lemma validity_key:
  assumes "wf_table t" and "map_of t s = Some a"
  shows "validity (Own t) s = Return True"
  using wf_table_key(1)[OF assms] assms(2)
  by (auto simp: validity_def get_prop_def)

lemma constructor_wf:
  assumes "wf_table t" and "get_prop (definitions reg) (defName version) = Own t"
    and "map_of t s = Some a"
  shows "constructor reg (Str s) version h =
    (Return \<lparr>this_definitionVersion = defName version, this_code = Some s, isValid = True,
       this_levels = map (\<lambda>n. if n \<le> length s then map_of t (take n s) else None) [2, 4, 6, 8]\<rparr>,
     stamped t (prefixes s) h)"
  using assms(2) validity_key[OF assms(1,3)] levels_wf[OF assms(1,3)]
  by (simp add: constructor_def bind_def yield_def)

subsection \<open>The store after the assignments\<close>

lemma stamped_name: "name (stamped t ks h a) = name (h a) \<and> description (stamped t ks h a) = description (h a)"
  by (induction ks arbitrary: h) (auto split: option.splits)

lemma stamped_other: "a \<notin> snd ` set t \<Longrightarrow> stamped t ks h a = h a"
proof (induction ks arbitrary: h)
  case Nil
  then show ?case by simp
next
  case (Cons k ks)
  show ?case
  proof (cases "map_of t k")
    case None
    with Cons show ?thesis by simp
  next
    case (Some b)
    then have "(k, b) \<in> set t" by (rule map_of_SomeD)
    with Cons.prems have "b \<noteq> a" by force
    with Cons Some show ?thesis by simp
  qed
qed

lemma stamped_code:
  assumes "distinct (map fst t)" and "distinct (map snd t)" and "(k, a) \<in> set t"
  shows "code (stamped t ks h a) = (if k \<in> set ks then Some k else code (h a))"
proof (induction ks arbitrary: h)
  case Nil
  then show ?case by simp
next
  case (Cons k' ks)
  show ?case
  proof (cases "map_of t k'")
    case None
    with assms(1,3) have "k' \<noteq> k" by auto
    with Cons None show ?thesis by simp
  next
    case (Some b)
    then have b: "(k', b) \<in> set t" by (rule map_of_SomeD)
    show ?thesis
    proof (cases "k' = k")
      case True
      with assms(1,3) Some have "b = a" by simp
      with True Some Cons show ?thesis by simp
    next
      case False
      with assms(2,3) b have "b \<noteq> a"
        by (metis (no_types, lifting) distinct_map inj_on_def snd_conv prod.inject)
      with False Some Cons show ?thesis by simp
    qed
  qed
qed

lemma stamped_append:
  "stamped t (ks @ [k]) h =
    (case map_of t k of Some a \<Rightarrow> (stamped t ks h)(a := (stamped t ks h a)\<lparr>code := Some k\<rparr>)
     | None \<Rightarrow> stamped t ks h)"
  by (induction ks arbitrary: h) (simp_all split: option.splits)

lemma stamped_at:
  "stamped t ks h b =
     (case find (\<lambda>k. map_of t k = Some b) (rev ks) of
        None \<Rightarrow> h b
      | Some k \<Rightarrow> (h b)\<lparr>code := Some k\<rparr>)"
proof (induction ks rule: rev_induct)
  case Nil
  show ?case by simp
next
  case (snoc k ks)
  show ?case
  proof (cases "map_of t k = Some b")
    case True
    with snoc show ?thesis
      by (simp add: stamped_append split: option.splits)
  next
    case False
    with snoc show ?thesis
      by (auto simp: stamped_append split: option.splits)
  qed
qed

lemma prefixes_last:
  "length s = 2 \<or> length s = 4 \<or> length s = 6 \<or> length s = 8 \<Longrightarrow>
   \<exists>ks. prefixes s = ks @ [s]"
  by (auto simp: prefixes_def)

lemma stamped_last:
  assumes "map_of t s = Some a" and "length s = 2 \<or> length s = 4 \<or> length s = 6 \<or> length s = 8"
  shows "code (stamped t (prefixes s) h a) = Some s"
proof -
  from prefixes_last[OF assms(2)] obtain ks where "prefixes s = ks @ [s]" ..
  with assms(1) show ?thesis by (simp add: stamped_append)
qed

lemma prefixes_iff:
  assumes "length k = 2 \<or> length k = 4 \<or> length k = 6 \<or> length k = 8"
  shows "k \<in> set (prefixes s) \<longleftrightarrow> startsWith s (Some k)"
proof
  assume "k \<in> set (prefixes s)"
  then obtain n where "k = take n s" "n \<le> length s"
    unfolding prefixes_def set_map set_filter by blast
  then show "startsWith s (Some k)"
    by (simp add: startsWith_def)
next
  assume "startsWith s (Some k)"
  then have k: "take (length k) s = k"
    by (simp add: startsWith_def)
  then have "length (take (length k) s) = length k"
    by simp
  then have "length k \<le> length s"
    by simp
  with assms have "take (length k) s \<in> set (prefixes s)"
    by (auto simp: prefixes_def)
  with k show "k \<in> set (prefixes s)" by simp
qed

lemma prefixes_take:
  "n \<in> {1, 2, 3, 4} \<Longrightarrow> 2 * n \<le> length s \<Longrightarrow> take (2 * n) s \<in> set (prefixes s)"
  by (auto simp: prefixes_def)

subsection \<open>Versions and the error of the constructor\<close>

lemma definitions_keys:
  "map fst (definitions reg) = [''20140228'', ''20160901'', ''20180929'', ''20230318'', ''default'']"
  by (simp add: definitions_def)

lemma unsupported_message:
  "unsupported reg v = ''Unsupported GICS version: '' @ v
     @ ''. Available versions are 20140228,20160901,20180929,20230318,default''"
  by (simp add: unsupported_def definitions_def)

lemma defName_default:
  "version = None \<or> version = Some [] \<Longrightarrow>
   get_prop (definitions reg) (defName version) = Own (defs20230318 reg)"
  by (auto simp: defName_def definitions_def get_prop_def)

lemma constructor_Error:
  "constructor reg c version h = (Throw (Error m), h') \<longleftrightarrow>
     (\<exists>v. version = Some v \<and> v \<noteq> [] \<and> v \<notin> set (map fst (definitions reg))
        \<and> v \<notin> set Object_prototype \<and> m = unsupported reg v \<and> h' = h)"
proof (cases "get_prop (definitions reg) (defName version) = Absent")
  case True
  then have "defName version \<notin> set (map fst (definitions reg))"
    and "defName version \<notin> set Object_prototype"
    by (simp_all add: get_prop_Absent)
  moreover from this(1) have "defName version \<noteq> ''default''"
    by (auto simp: definitions_def)
  then obtain v where "version = Some v" "v \<noteq> []"
    by (auto simp: defName_def split: option.splits if_splits)
  ultimately show ?thesis using True
    by (auto simp: constructor_def defName_def)
next
  case False
  then have "\<not> (\<exists>v. version = Some v \<and> v \<noteq> [] \<and> v \<notin> set (map fst (definitions reg))
        \<and> v \<notin> set Object_prototype)"
    unfolding get_prop_Absent by (force simp: defName_def)
  moreover from False have "constructor reg c version h \<noteq> (Throw (Error m), h')"
    by (auto simp: constructor_def Let_def bind_Throw yield_def levels_no_Error
        validity_no_Error split: jscode.splits outcome.splits if_splits)
  ultimately show ?thesis by blast
qed

subsection \<open>Validity of the code\<close>

lemma constructor_validity:
  assumes "get_prop (definitions reg) (defName version) = Own t"
    and "constructor reg c version h = (Return e, h')"
  shows "isValid e \<longleftrightarrow>
      (\<exists>s. c = Str s \<and> s \<noteq> [] \<and> 2 \<le> length s \<and> length s \<le> 8 \<and> even (length s)
         \<and> s \<in> set (map fst t))"
    and "\<not> isValid e \<longrightarrow> this_code e = None"
proof -
  show "\<not> isValid e \<longrightarrow> this_code e = None"
    using constructor_Return(4)[OF assms(2)] by (auto simp: invalid_def)
  show "isValid e \<longleftrightarrow>
      (\<exists>s. c = Str s \<and> s \<noteq> [] \<and> 2 \<le> length s \<and> length s \<le> 8 \<and> even (length s)
         \<and> s \<in> set (map fst t))"
  proof
    assume "isValid e"
    from constructor_Return(1)[OF assms(2)] constructor_Return(3)[OF assms(2) this] assms(1)
    obtain s a where "c = Str s" "map_of t s = Some a"
      "length s = 2 \<or> length s = 4 \<or> length s = 6 \<or> length s = 8"
      by (auto simp: this_definition_def)
    moreover from this(2) have "s \<in> set (map fst t)"
      by (metis map_of_eq_None_iff option.distinct(1) set_map)
    ultimately show "\<exists>s. c = Str s \<and> s \<noteq> [] \<and> 2 \<le> length s \<and> length s \<le> 8 \<and> even (length s)
         \<and> s \<in> set (map fst t)"
      by auto
  next
    assume "\<exists>s. c = Str s \<and> s \<noteq> [] \<and> 2 \<le> length s \<and> length s \<le> 8 \<and> even (length s)
         \<and> s \<in> set (map fst t)"
    then obtain s where s: "c = Str s" "s \<noteq> []" "2 \<le> length s" "length s \<le> 8" "even (length s)"
      "s \<in> set (map fst t)" by blast
    then have "get_prop t s \<noteq> Absent"
      by (simp add: get_prop_Absent)
    with s have "validity (Own t) s = Return True"
      by (simp add: validity_def)
    with assms s(1) show "isValid e"
      by (auto simp: constructor_def bind_Return yield_Return)
  qed
qed

lemma constructor_total:
  assumes "wf_table t" and "get_prop (definitions reg) (defName version) = Own t"
    and "c \<noteq> Str ''toString''"
  shows "\<exists>e h'. constructor reg c version h = (Return e, h')"
proof (cases c)
  case NotString
  with assms(2) show ?thesis by (simp add: constructor_def)
next
  case (Str s)
  show ?thesis
  proof (cases "map_of t s")
    case (Some a)
    from constructor_wf[OF assms(1,2) Some] Str show ?thesis by blast
  next
    case None
    have "validity (Own t) s = Return False"
    proof (cases "s \<noteq> [] \<and> 2 \<le> length s \<and> length s \<le> 8 \<and> even (length s)")
      case True
      have "s \<notin> set Object_prototype"
      proof
        assume "s \<in> set Object_prototype"
        with True have "s = ''toString''" by (auto simp: Object_prototype_def)
        with Str assms(3) show False by simp
      qed
      with None True show ?thesis by (simp add: validity_def get_prop_def)
    next
      case False
      then show ?thesis by (auto simp: validity_def)
    qed
    with assms(2) Str show ?thesis by (simp add: constructor_def)
  qed
qed

subsection \<open>The method level\<close>

lemma GICS_level_numeral:
  assumes "isValid e" and "this_levels e = [l1, l2, l3, l4]"
  shows "GICS_level e (Number 1) = (case l1 of None \<Rightarrow> Null | Some a \<Rightarrow> Object a)"
    and "GICS_level e (Number 2) = (case l2 of None \<Rightarrow> Null | Some a \<Rightarrow> Object a)"
    and "GICS_level e (Number 3) = (case l3 of None \<Rightarrow> Null | Some a \<Rightarrow> Object a)"
    and "GICS_level e (Number 4) = (case l4 of None \<Rightarrow> Null | Some a \<Rightarrow> Object a)"
  using assms by (simp_all add: GICS_level_def element_def)

lemma GICS_level_cases:
  assumes "this_levels e = [l1, l2, l3, l4]"
  shows "GICS_level e v =
    (if \<not> isValid e then Null
     else case v of
       Number n \<Rightarrow>
         if n = 1 then (case l1 of None \<Rightarrow> Null | Some a \<Rightarrow> Object a)
         else if n = 2 then (case l2 of None \<Rightarrow> Null | Some a \<Rightarrow> Object a)
         else if n = 3 then (case l3 of None \<Rightarrow> Null | Some a \<Rightarrow> Object a)
         else if n = 4 then (case l4 of None \<Rightarrow> Null | Some a \<Rightarrow> Object a)
         else if 1 < n \<and> n < 4 then Undefined
         else Null
     | _ \<Rightarrow> Null)"
  using assms by (cases v) (auto simp: GICS_level_def element_def)

subsection \<open>Children and the search\<close>

lemma getChildren_Own:
  "this_definition reg e = Own t \<Longrightarrow>
   getChildren reg g e d = Return (map (childEntry g)
     (if isValid e
      then filter (\<lambda>ka. startsWith (fst ka) (this_code e)
                    \<and> level (this_code e) + d = level (Some (fst ka))) t
      else filter (\<lambda>ka. level (Some (fst ka)) = d) t))"
  by (simp add: getChildren_def)

lemma getChildren_no_gap:
  assumes "constructor reg c version h = (Return e, h')"
    and "get_prop (definitions reg) (defName version) = Own t" and "wf_table t"
    and "1 \<le> d" and "getChildren reg g e d = Return []"
  shows "getChildren reg g e (d + 1) = Return []"
proof -
  from constructor_Return(1)[OF assms(1)] assms(2)
  have def: "this_definition reg e = Own t"
    by (simp add: this_definition_def)
  show ?thesis
  proof (cases "isValid e")
    case True
    from constructor_Return(3)[OF assms(1) True] def
    obtain s a where s: "this_code e = Some s" "map_of t s = Some a"
      and len: "length s = 2 \<or> length s = 4 \<or> length s = 6 \<or> length s = 8"
      by auto
    let ?P = "\<lambda>d ka. startsWith (fst ka) (Some s) \<and> level (Some s) + d = level (Some (fst ka))"
    from assms(5) True def s have none: "\<forall>ka \<in> set t. \<not> ?P d ka"
      by (simp add: getChildren_Own filter_empty_conv)
    have "\<not> ?P (d + 1) ka" if ka: "ka \<in> set t" for ka
    proof
      assume P: "?P (d + 1) ka"
      let ?k = "fst ka"
      from wf_table_length[OF assms(3) ka] have lk: "2 * level (Some ?k) = int (length ?k)"
        by (rule level_key)
      from len have ls: "2 * level (Some s) = int (length s)" by (rule level_key)
      from P lk ls assms(4) have l: "int (length ?k) = int (length s) + 2 * d + 2" by simp
      with assms(4) len have 4: "4 \<le> length ?k" by auto
      from wf_table_parent[OF assms(3) ka 4] obtain kb
        where kb: "kb \<in> set t" "fst kb = take (length ?k - 2) ?k" by blast
      from l assms(4) have sl: "length s \<le> length ?k - 2" by simp
      from P have "take (length s) ?k = s" by (simp add: startsWith_def)
      with sl kb(2) have "startsWith (fst kb) (Some s)"
        by (simp add: startsWith_def min_def)
      moreover have "level (Some s) + d = level (Some (fst kb))"
      proof -
        from wf_table_length[OF assms(3) kb(1)] have "2 * level (Some (fst kb)) = int (length (fst kb))"
          by (rule level_key)
        moreover from kb(2) 4 have "int (length (fst kb)) = int (length ?k) - 2" by simp
        ultimately show ?thesis using l ls by simp
      qed
      ultimately have "?P d kb" by simp
      with none kb(1) show False by blast
    qed
    then have "filter (?P (d + 1)) t = []"
      by (simp add: filter_empty_conv)
    with True def s show ?thesis
      by (simp add: getChildren_Own)
  next
    case False
    from assms(5) False def have none: "\<forall>ka \<in> set t. level (Some (fst ka)) \<noteq> d"
      by (simp add: getChildren_Own filter_empty_conv)
    have "level (Some (fst ka)) \<noteq> d + 1" if ka: "ka \<in> set t" for ka
    proof
      assume P: "level (Some (fst ka)) = d + 1"
      let ?k = "fst ka"
      from wf_table_length[OF assms(3) ka] have lk: "2 * level (Some ?k) = int (length ?k)"
        by (rule level_key)
      with P assms(4) have 4: "4 \<le> length ?k" by simp
      from wf_table_parent[OF assms(3) ka 4] obtain kb
        where kb: "kb \<in> set t" "fst kb = take (length ?k - 2) ?k" by blast
      from wf_table_length[OF assms(3) kb(1)] have "2 * level (Some (fst kb)) = int (length (fst kb))"
        by (rule level_key)
      moreover from kb(2) 4 have "int (length (fst kb)) = int (length ?k) - 2" by simp
      ultimately have "level (Some (fst kb)) = d" using P lk by simp
      with none kb(1) show False by blast
    qed
    then have "filter (\<lambda>ka. level (Some (fst ka)) = d + 1) t = []"
      by (simp add: filter_empty_conv)
    with False def show ?thesis
      by (simp add: getChildren_Own)
  qed
qed

lemma getChildren_empty_below:
  assumes "constructor reg c version h = (Return e, h')"
    and "get_prop (definitions reg) (defName version) = Own t" and "wf_table t"
    and "1 \<le> d" and "getChildren reg g e d = Return []"
  shows "getChildren reg g e (d + int n) = Return []"
proof (induction n)
  case 0
  from assms(5) show ?case by simp
next
  case (Suc n)
  from assms(4) have "1 \<le> d + int n" by simp
  from getChildren_no_gap[OF assms(1,2,3) this Suc.IH] show ?case
    by (simp add: algebra_simps)
qed

lemma findDeep_search:
  assumes "\<And>d. \<exists>cs. getChildren reg g e d = Return cs"
  shows "\<exists>d cs. d0 \<le> d \<and> getChildren reg g e d = Return cs
      \<and> (\<forall>d'. d0 \<le> d' \<and> d' < d \<longrightarrow>
            (\<exists>cs'. getChildren reg g e d' = Return cs' \<and> cs' \<noteq> []
                 \<and> find (\<lambda>child. name child = nm) cs' = None))
      \<and> (cs \<noteq> [] \<longrightarrow> find (\<lambda>child. name child = nm) cs \<noteq> None)
      \<and> findDeep reg g e nm d0 =
          Return (if cs = [] then None else find (\<lambda>child. name child = nm) cs)"
  using assms
proof (induction reg g e nm d0 rule: findDeep.induct)
  case (1 reg h e childName depth)
  let ?P = "\<lambda>child. name child = childName"
  from "1.prems" obtain cs where cs: "getChildren reg h e depth = Return cs" by blast
  show ?case
  proof (cases "cs = [] \<or> find ?P cs \<noteq> None")
    case True
    have "findDeep reg h e childName depth = Return (if cs = [] then None else find ?P cs)"
      using cs True by (subst findDeep.simps) auto
    with cs True show ?thesis
      by (intro exI[of _ depth] exI[of _ cs]) auto
  next
    case False
    then have ne: "cs \<noteq> []" and no: "find ?P cs = None" by auto
    from "1.IH"[OF cs ne no "1.prems"]
    obtain d cs' where d: "depth + 1 \<le> d" "getChildren reg h e d = Return cs'"
      and sh: "\<forall>d'. depth + 1 \<le> d' \<and> d' < d \<longrightarrow>
            (\<exists>cs''. getChildren reg h e d' = Return cs'' \<and> cs'' \<noteq> [] \<and> find ?P cs'' = None)"
      and hit: "cs' \<noteq> [] \<longrightarrow> find ?P cs' \<noteq> None"
      and res: "findDeep reg h e childName (depth + 1) =
          Return (if cs' = [] then None else find ?P cs')"
      by blast
    have "findDeep reg h e childName depth = findDeep reg h e childName (depth + 1)"
      using cs ne no by (subst findDeep.simps) simp
    with res have res': "findDeep reg h e childName depth =
          Return (if cs' = [] then None else find ?P cs')"
      by simp
    have "\<exists>cs''. getChildren reg h e d' = Return cs'' \<and> cs'' \<noteq> [] \<and> find ?P cs'' = None"
      if "depth \<le> d'" "d' < d" for d'
    proof (cases "d' = depth")
      case True
      with cs ne no show ?thesis by simp
    next
      case False
      with that have "depth + 1 \<le> d' \<and> d' < d" by simp
      with sh show ?thesis by blast
    qed
    with d hit res' show ?thesis
      by (intro exI[of _ d] exI[of _ cs']) auto
  qed
qed

subsection \<open>The example evaluated\<close>

lemmas eval_defs = constructor_def definitions_def registry0_def table0_def defName_def
  get_prop_def validity_def levels_def bind_def optional_def yield_def getDefinition_def
  Object_prototype_def invalid_def

lemma wf_table0: "wf_table table0"
  by (simp add: wf_table_def table0_def)

lemma default0: "get_prop (definitions registry0) (defName None) = Own table0"
  by (simp add: eval_defs)

lemma wf_table1: "wf_table table1"
  by (simp add: wf_table_def table1_def)

lemma default1: "get_prop (definitions registry1) (defName None) = Own table1"
  by (simp add: definitions_def registry1_def defName_def get_prop_def)

lemma construct_energy:
  "constructor registry0 (Str ''10'') None heap0 =
     (Return energy, snd (constructor registry0 (Str ''10'') None heap0))"
  by (simp add: prod_eq_iff eval_defs energy_def)

lemma fst_construct_energy:
  "fst (constructor registry0 (Str ''10'') None heap0) = Return energy"
  using construct_energy by (metis fst_conv)

lemma construct_empty:
  "constructor registry0 NotString None heap0 = (Return (invalid ''default''), heap0)"
  by (simp add: eval_defs)

lemma construct_energyGroup:
  "fst (constructor registry0 (Str ''1010'') None heap0) = Return energyGroup"
  by (simp add: eval_defs energyGroup_def)

lemma construct_energyEquipment:
  "fst (constructor registry0 (Str ''101010'') None heap0) = Return energyEquipment"
  by (simp add: eval_defs energyEquipment_def)

lemma findChild_drilling:
  "findChild registry0 heap0 energy ''Oil & Gas Drilling'' =
     Return (Some \<lparr>name = ''Oil & Gas Drilling'', description = Some ''Drilling contractors'',
                   code = Some ''10101010''\<rparr>)"
  by (simp add: findChild_def findDeep.simps getChildren_def this_definition_def energy_def
      definitions_def registry0_def table0_def get_prop_def startsWith_def level_def
      childEntry_def heap0_def)

lemma findChild_absent:
  "findChild registry0 heap0 energy ''Banks'' = Return None"
  by (simp add: findChild_def findDeep.simps getChildren_def this_definition_def energy_def
      definitions_def registry0_def table0_def get_prop_def startsWith_def level_def
      childEntry_def heap0_def)

section \<open>Construction\<close>

text \<open>
  Claim C3, evaluated where it fails. The conjunction of lines 36-41 tests the key with a
  property read, which also finds the members the table inherits: for the code
  \<^verbatim>\<open>"toString"\<close>, which is not a key of the example table, the value assigned to
  \<^verbatim>\<open>isValid\<close> is true, and the constructor then throws a TypeError at line 58, on the
  missing prefix \<^verbatim>\<open>"to"\<close>, instead of returning an invalid instance.
\<close>

theorem inherited_name_taken_for_key:
  "''toString'' \<notin> set (map fst table0)
   \<and> validity (Own table0) ''toString'' = Return True
   \<and> constructor registry0 (Str ''toString'') None heap0 = (Throw TypeError, heap0)"
  by (simp add: eval_defs)


text \<open>
  Claim C4. For a key \<open>s\<close> of a well-formed table the constructor returns a valid
  instance whose \<^verbatim>\<open>_levels\<close> are the table's entries of the prefixes of \<open>s\<close> of
  lengths 2, 4, 6 and 8, as far as \<open>s\<close> reaches (each of them present), and
  \<^verbatim>\<open>null\<close> beyond; \<^verbatim>\<open>level(length s / 2)\<close> is the entry of \<open>s\<close>, whose
  \<^verbatim>\<open>code\<close> is \<open>s\<close>, and \<^verbatim>\<open>level(n)\<close> is \<^verbatim>\<open>null\<close> for every deeper level
  \<open>n\<close> up to 4.
\<close>

theorem levels_of_valid_code:
  assumes "wf_table t" and "get_prop (definitions reg) (defName version) = Own t"
    and "map_of t s = Some a"
  shows "\<exists>e h'. constructor reg (Str s) version h = (Return e, h') \<and> isValid e
      \<and> this_levels e = [map_of t (take 2 s),
                         if 4 \<le> length s then map_of t (take 4 s) else None,
                         if 6 \<le> length s then map_of t (take 6 s) else None,
                         if length s = 8 then map_of t (take 8 s) else None]
      \<and> (\<forall>n \<in> {2, 4, 6, 8}. n \<le> length s \<longrightarrow> map_of t (take n s) \<noteq> None)
      \<and> GICS_level e (Number (of_nat (length s div 2))) = Object a
      \<and> code (h' a) = Some s
      \<and> (\<forall>n \<in> {1, 2, 3, 4}. length s div 2 < n \<longrightarrow> GICS_level e (Number (of_nat n)) = Null)"
proof -
  define e where "e = \<lparr>this_definitionVersion = defName version, this_code = Some s,
       isValid = True,
       this_levels = map (\<lambda>n. if n \<le> length s then map_of t (take n s) else None) [2, 4, 6, 8]\<rparr>"
  let ?h = "stamped t (prefixes s) h"
  note len = wf_table_key(1)[OF assms(1,3)]
  have c: "constructor reg (Str s) version h = (Return e, ?h)"
    unfolding e_def using assms by (rule constructor_wf)
  have v: "isValid e" by (simp add: e_def)
  have ls: "this_levels e = [map_of t (take 2 s),
                         if 4 \<le> length s then map_of t (take 4 s) else None,
                         if 6 \<le> length s then map_of t (take 6 s) else None,
                         if length s = 8 then map_of t (take 8 s) else None]"
    using len by (auto simp: e_def)
  note lv = GICS_level_numeral[OF v ls]
  have pre: "\<forall>n \<in> {2, 4, 6, 8}. n \<le> length s \<longrightarrow> map_of t (take n s) \<noteq> None"
    using wf_table_key(2)[OF assms(1,3)] by (metis option.distinct(1))
  have own: "GICS_level e (Number (of_nat (length s div 2))) = Object a"
    using len assms(3) by (auto simp: lv)
  have tag: "code (?h a) = Some s"
    using assms(3) len by (rule stamped_last)
  have deeper: "\<forall>n \<in> {1, 2, 3, 4}. length s div 2 < n \<longrightarrow> GICS_level e (Number (of_nat n)) = Null"
    using len by (auto simp: lv)
  from c v ls pre own tag deeper show ?thesis by blast
qed

theorem levels_of_valid_code_witness:
  "wf_table table0 \<and> get_prop (definitions registry0) (defName None) = Own table0
   \<and> map_of table0 ''1010'' = Some 2
   \<and> (\<exists>e h'. constructor registry0 (Str ''1010'') None heap0 = (Return e, h') \<and> isValid e
      \<and> this_levels e = [Some 0, Some 2, None, None]
      \<and> GICS_level e (Number 2) = Object 2
      \<and> code (h' 2) = Some ''1010''
      \<and> GICS_level e (Number 3) = Null \<and> GICS_level e (Number 4) = Null)"
proof -
  have k: "map_of table0 ''1010'' = Some 2"
    by (simp add: table0_def)
  from levels_of_valid_code[OF wf_table0 default0 k, of heap0]
  have "\<exists>e h'. constructor registry0 (Str ''1010'') None heap0 = (Return e, h') \<and> isValid e
      \<and> this_levels e = [Some 0, Some 2, None, None]
      \<and> GICS_level e (Number 2) = Object 2
      \<and> code (h' 2) = Some ''1010''
      \<and> GICS_level e (Number 3) = Null \<and> GICS_level e (Number 4) = Null"
    by (simp add: table0_def)
  with wf_table0 default0 k show ?thesis by simp
qed


text \<open>
  Claim C1, as stated, fails: the object that \<^verbatim>\<open>sector\<close> returns for the code 10 is
  the table's own entry (the object at the address the table holds for the key), and
  the construction has changed that entry in the store.
\<close>

theorem level_access_shares_entry:
  "fst (constructor registry0 (Str ''10'') None heap0) = Return energy
   \<and> sector energy = Object 0 \<and> map_of table0 ''10'' = Some 0
   \<and> snd (constructor registry0 (Str ''10'') None heap0) 0 \<noteq> heap0 0"
  by (simp add: eval_defs energy_def sector_def GICS_level_def element_def heap0_def)


text \<open>
  Claim C1, amended. Only a construction with a valid code writes. A construction that
  returns an invalid instance, or that throws the error for the version, leaves the store
  as it is; \<^verbatim>\<open>level\<close>, the accessors, \<^verbatim>\<open>getChildren\<close>, \<^verbatim>\<open>findChild\<close> and the
  relations contain no assignment and are functions that return no store.

  For a key \<open>s\<close> of a well-formed table the construction returns a valid
  instance, and every level access within the length of \<open>s\<close> (the field
  \<^verbatim>\<open>_levels\<close>, \<^verbatim>\<open>level(n)\<close> and the accessor of the level) returns the table's own
  entry of the prefix, not a copy. Afterwards every object has the name and the
  description it had, and its \<^verbatim>\<open>code\<close> is the longest of the prefixes of \<open>s\<close>
  looked up under which the table holds the object, or the code it had when there is
  none: the entry of \<open>s\<close> carries \<open>s\<close>, and objects outside the table are
  unchanged.

  When the entries of the table are distinct objects, one for each key, every level
  access carries its own prefix as \<^verbatim>\<open>code\<close>, the code of an entry is its key when
  the key is a prefix of \<open>s\<close> and is unchanged otherwise, and an entry that already
  carries its key (as every entry returned before does) stays as it is. The witness
  shows both cases: the example table, and the table whose keys 10 and 1010 hold one
  object, which ends with the code 1010.
\<close>

theorem construction_stamps_entries:
  assumes "wf_table t" and "get_prop (definitions reg) (defName version) = Own t"
    and "map_of t s = Some a"
  shows "\<exists>e h'. constructor reg (Str s) version h = (Return e, h') \<and> isValid e
      \<and> (\<forall>n \<in> {1, 2, 3, 4}. 2 * n \<le> length s \<longrightarrow>
            (\<exists>b. map_of t (take (2 * n) s) = Some b
                \<and> this_levels e ! (n - 1) = Some b
                \<and> GICS_level e (Number (of_nat n)) = Object b
                \<and> [sector e, industryGroup e, industry e, subIndustry e] ! (n - 1) = Object b
                \<and> (distinct (map snd t) \<longrightarrow> code (h' b) = Some (take (2 * n) s))))
      \<and> (\<forall>b. h' b =
            (case find (\<lambda>k. map_of t k = Some b) (rev (prefixes s)) of
               None \<Rightarrow> h b
             | Some k \<Rightarrow> (h b)\<lparr>code := Some k\<rparr>))
      \<and> code (h' a) = Some s
      \<and> (\<forall>b. name (h' b) = name (h b) \<and> description (h' b) = description (h b))
      \<and> (\<forall>b. b \<notin> snd ` set t \<longrightarrow> h' b = h b)
      \<and> (distinct (map snd t) \<longrightarrow>
            (\<forall>kb \<in> set t.
               code (h' (snd kb)) =
                 (if startsWith s (Some (fst kb)) then Some (fst kb) else code (h (snd kb)))
               \<and> (code (h (snd kb)) = Some (fst kb) \<longrightarrow> h' (snd kb) = h (snd kb))))
      \<and> (\<forall>c' v' e' g. constructor reg c' v' h = (Return e', g) \<and> \<not> isValid e' \<longrightarrow> g = h)
      \<and> (\<forall>c' v' m g. constructor reg c' v' h = (Throw (Error m), g) \<longrightarrow> g = h)"
proof -
  define e where "e = \<lparr>this_definitionVersion = defName version, this_code = Some s,
       isValid = True,
       this_levels = map (\<lambda>n. if n \<le> length s then map_of t (take n s) else None) [2, 4, 6, 8]\<rparr>"
  let ?h = "stamped t (prefixes s) h"
  note len = wf_table_key(1)[OF assms(1,3)]
  from assms(1) have dk: "distinct (map fst t)"
    by (simp add: wf_table_def)
  have c: "constructor reg (Str s) version h = (Return e, ?h)"
    unfolding e_def using assms by (rule constructor_wf)
  have v: "isValid e" by (simp add: e_def)
  have ls: "this_levels e = [map_of t (take 2 s),
                         if 4 \<le> length s then map_of t (take 4 s) else None,
                         if 6 \<le> length s then map_of t (take 6 s) else None,
                         if 8 \<le> length s then map_of t (take 8 s) else None]"
    using len by (auto simp: e_def)
  note lv = GICS_level_numeral[OF v ls]
  have code: "code (?h b) = (if startsWith s (Some k) then Some k else code (h b))"
    if d: "distinct (map snd t)" and kb: "(k, b) \<in> set t" for k b
  proof -
    from wf_table_length[OF assms(1) kb]
    have "k \<in> set (prefixes s) \<longleftrightarrow> startsWith s (Some k)"
      by (intro prefixes_iff) simp
    with stamped_code[OF dk d kb, of "prefixes s" h] show ?thesis by simp
  qed
  have lev: "\<exists>b. map_of t (take (2 * n) s) = Some b
                \<and> this_levels e ! (n - 1) = Some b
                \<and> GICS_level e (Number (of_nat n)) = Object b
                \<and> [sector e, industryGroup e, industry e, subIndustry e] ! (n - 1) = Object b
                \<and> (distinct (map snd t) \<longrightarrow> code (?h b) = Some (take (2 * n) s))"
    if n: "n \<in> {1, 2, 3, 4}" "2 * n \<le> length s" for n
  proof -
    from n wf_table_key(2)[OF assms(1,3), of "2 * n"]
    obtain b where b: "map_of t (take (2 * n) s) = Some b" by auto
    then have kb: "(take (2 * n) s, b) \<in> set t" by (rule map_of_SomeD)
    have "code (?h b) = Some (take (2 * n) s)" if d: "distinct (map snd t)"
      using stamped_code[OF dk d kb, of "prefixes s" h] prefixes_take[OF n] by simp
    moreover from n b have "this_levels e ! (n - 1) = Some b"
      by (auto simp: ls)
    moreover from n b have "GICS_level e (Number (of_nat n)) = Object b"
      by (auto simp: lv)
    moreover from n b
    have "[sector e, industryGroup e, industry e, subIndustry e] ! (n - 1) = Object b"
      by (auto simp: lv sector_def industryGroup_def industry_def subIndustry_def)
    ultimately show ?thesis using b by blast
  qed
  have at: "?h b = (case find (\<lambda>k. map_of t k = Some b) (rev (prefixes s)) of
               None \<Rightarrow> h b | Some k \<Rightarrow> (h b)\<lparr>code := Some k\<rparr>)" for b
    by (rule stamped_at)
  have tag: "code (?h a) = Some s"
    using assms(3) len by (rule stamped_last)
  have frame: "name (?h b) = name (h b) \<and> description (?h b) = description (h b)" for b
    by (rule stamped_name)
  have other: "b \<notin> snd ` set t \<longrightarrow> ?h b = h b" for b
    by (simp add: stamped_other)
  have dist: "\<forall>kb \<in> set t.
               code (?h (snd kb)) =
                 (if startsWith s (Some (fst kb)) then Some (fst kb) else code (h (snd kb)))
               \<and> (code (h (snd kb)) = Some (fst kb) \<longrightarrow> ?h (snd kb) = h (snd kb))"
    if d: "distinct (map snd t)"
  proof (intro ballI conjI impI)
    fix kb assume kb: "kb \<in> set t"
    then have "(fst kb, snd kb) \<in> set t" by simp
    from code[OF d this]
    show 1: "code (?h (snd kb)) =
        (if startsWith s (Some (fst kb)) then Some (fst kb) else code (h (snd kb)))" .
    assume "code (h (snd kb)) = Some (fst kb)"
    with 1 have "code (?h (snd kb)) = code (h (snd kb))" by simp
    with frame[of "snd kb"] show "?h (snd kb) = h (snd kb)" by simp
  qed
  have inv: "g = h" if "constructor reg c' v' h = (Return e', g)" "\<not> isValid e'" for c' v' e' g
    using constructor_Return(4)[OF that] by simp
  have err: "g = h" if "constructor reg c' v' h = (Throw (Error m), g)" for c' v' m g
    using that by (auto simp: constructor_Error)
  from lev have lev': "\<forall>n \<in> {1, 2, 3, 4}. 2 * n \<le> length s \<longrightarrow>
            (\<exists>b. map_of t (take (2 * n) s) = Some b
                \<and> this_levels e ! (n - 1) = Some b
                \<and> GICS_level e (Number (of_nat n)) = Object b
                \<and> [sector e, industryGroup e, industry e, subIndustry e] ! (n - 1) = Object b
                \<and> (distinct (map snd t) \<longrightarrow> code (?h b) = Some (take (2 * n) s)))"
    by blast
  from at have at': "\<forall>b. ?h b =
            (case find (\<lambda>k. map_of t k = Some b) (rev (prefixes s)) of
               None \<Rightarrow> h b
             | Some k \<Rightarrow> (h b)\<lparr>code := Some k\<rparr>)"
    by (rule allI)
  from frame have frame': "\<forall>b. name (?h b) = name (h b) \<and> description (?h b) = description (h b)"
    by (rule allI)
  from other have other': "\<forall>b. b \<notin> snd ` set t \<longrightarrow> ?h b = h b"
    by (rule allI)
  from dist have dist': "distinct (map snd t) \<longrightarrow>
            (\<forall>kb \<in> set t.
               code (?h (snd kb)) =
                 (if startsWith s (Some (fst kb)) then Some (fst kb) else code (h (snd kb)))
               \<and> (code (h (snd kb)) = Some (fst kb) \<longrightarrow> ?h (snd kb) = h (snd kb)))"
    by (rule impI)
  from inv have inv': "\<forall>c' v' e' g. constructor reg c' v' h = (Return e', g) \<and> \<not> isValid e' \<longrightarrow> g = h"
    by blast
  from err have err': "\<forall>c' v' m g. constructor reg c' v' h = (Throw (Error m), g) \<longrightarrow> g = h"
    by blast
  from c v lev' at' tag frame' other' dist' inv' err' show ?thesis
    by (intro exI[of _ e] exI[of _ "?h"] conjI)
qed

theorem construction_stamps_entries_witness:
  "wf_table table0 \<and> distinct (map snd table0)
   \<and> get_prop (definitions registry0) (defName None) = Own table0
   \<and> map_of table0 ''1010'' = Some 2
   \<and> (\<exists>e h'. constructor registry0 (Str ''1010'') None heap0 = (Return e, h') \<and> isValid e
        \<and> sector e = Object 0 \<and> code (h' 0) = Some ''10''
        \<and> industryGroup e = Object 2 \<and> code (h' 2) = Some ''1010''
        \<and> name (h' 0) = ''Energy'' \<and> code (h' 1) = None \<and> h' 8 = heap0 8)
   \<and> wf_table table1 \<and> get_prop (definitions registry1) (defName None) = Own table1
   \<and> map_of table1 ''1010'' = Some 0
   \<and> (\<exists>e h'. constructor registry1 (Str ''1010'') None heap0 = (Return e, h') \<and> isValid e
        \<and> sector e = Object 0 \<and> industryGroup e = Object 0
        \<and> h' 0 = (heap0 0)\<lparr>code := Some ''1010''\<rparr>)"
proof -
  have k: "map_of table0 ''1010'' = Some 2"
    by (simp add: table0_def)
  have d: "distinct (map snd table0)"
    by (simp add: table0_def)
  from construction_stamps_entries[OF wf_table0 default0 k, of heap0]
  obtain e h' where c: "constructor registry0 (Str ''1010'') None heap0 = (Return e, h')"
    and v: "isValid e"
    and lev: "\<forall>n \<in> {1, 2, 3, 4}. 2 * n \<le> length ''1010'' \<longrightarrow>
            (\<exists>b. map_of table0 (take (2 * n) ''1010'') = Some b
                \<and> this_levels e ! (n - 1) = Some b
                \<and> GICS_level e (Number (of_nat n)) = Object b
                \<and> [sector e, industryGroup e, industry e, subIndustry e] ! (n - 1) = Object b
                \<and> (distinct (map snd table0) \<longrightarrow> code (h' b) = Some (take (2 * n) ''1010'')))"
    and frame: "\<forall>b. name (h' b) = name (heap0 b) \<and> description (h' b) = description (heap0 b)"
    and other: "\<forall>b. b \<notin> snd ` set table0 \<longrightarrow> h' b = heap0 b"
    and tag: "distinct (map snd table0) \<longrightarrow>
            (\<forall>kb \<in> set table0.
               code (h' (snd kb)) =
                 (if startsWith ''1010'' (Some (fst kb)) then Some (fst kb)
                  else code (heap0 (snd kb)))
               \<and> (code (heap0 (snd kb)) = Some (fst kb) \<longrightarrow> h' (snd kb) = heap0 (snd kb)))"
    by blast
  from lev d have 1: "sector e = Object 0 \<and> code (h' 0) = Some ''10''"
    and 2: "industryGroup e = Object 2 \<and> code (h' 2) = Some ''1010''"
    by (auto simp: table0_def)
  from frame have 3: "name (h' 0) = ''Energy''"
    by (simp add: heap0_def)
  from tag d have 4: "code (h' 1) = None"
    by (simp add: table0_def startsWith_def heap0_def)
  from other have 5: "h' 8 = heap0 8"
    by (simp add: table0_def)
  from c v 1 2 3 4 5
  have A: "\<exists>e h'. constructor registry0 (Str ''1010'') None heap0 = (Return e, h') \<and> isValid e
        \<and> sector e = Object 0 \<and> code (h' 0) = Some ''10''
        \<and> industryGroup e = Object 2 \<and> code (h' 2) = Some ''1010''
        \<and> name (h' 0) = ''Energy'' \<and> code (h' 1) = None \<and> h' 8 = heap0 8"
    by blast
  have k1: "map_of table1 ''1010'' = Some 0"
    by (simp add: table1_def)
  from construction_stamps_entries[OF wf_table1 default1 k1, of heap0]
  obtain e1 h1 where c1: "constructor registry1 (Str ''1010'') None heap0 = (Return e1, h1)"
    and v1: "isValid e1"
    and lev1: "\<forall>n \<in> {1, 2, 3, 4}. 2 * n \<le> length ''1010'' \<longrightarrow>
            (\<exists>b. map_of table1 (take (2 * n) ''1010'') = Some b
                \<and> this_levels e1 ! (n - 1) = Some b
                \<and> GICS_level e1 (Number (of_nat n)) = Object b
                \<and> [sector e1, industryGroup e1, industry e1, subIndustry e1] ! (n - 1) = Object b
                \<and> (distinct (map snd table1) \<longrightarrow> code (h1 b) = Some (take (2 * n) ''1010'')))"
    and at1: "\<forall>b. h1 b =
            (case find (\<lambda>k. map_of table1 k = Some b) (rev (prefixes ''1010'')) of
               None \<Rightarrow> heap0 b
             | Some k \<Rightarrow> (heap0 b)\<lparr>code := Some k\<rparr>)"
    by blast
  from lev1 have 6: "sector e1 = Object 0 \<and> industryGroup e1 = Object 0"
    by (auto simp: table1_def)
  from at1 have 7: "h1 0 = (heap0 0)\<lparr>code := Some ''1010''\<rparr>"
    by (simp add: table1_def prefixes_def)
  from c1 v1 6 7
  have B: "\<exists>e h'. constructor registry1 (Str ''1010'') None heap0 = (Return e, h') \<and> isValid e
        \<and> sector e = Object 0 \<and> industryGroup e = Object 0
        \<and> h' 0 = (heap0 0)\<lparr>code := Some ''1010''\<rparr>"
    by blast
  from wf_table0 d default0 k A wf_table1 default1 k1 B show ?thesis by simp
qed

text \<open>
  Claim C5, evaluated where it fails. The test of line 27 reads
  \<^verbatim>\<open>definitions[version]\<close>, which also finds the members the registry inherits: the
  version \<^verbatim>\<open>"toString"\<close> is not one of the identifiers of the registry, and the
  constructor (here for an omitted code) returns an invalid instance bound to it
  instead of throwing.
\<close>

theorem unknown_version_accepted:
  "''toString'' \<notin> set (map fst (definitions reg))
   \<and> constructor reg NotString (Some ''toString'') h = (Return (invalid ''toString''), h)"
  by (simp add: constructor_def definitions_def defName_def get_prop_def Object_prototype_def)

section \<open>The method level\<close>

text \<open>
  Claim C2, evaluated where it fails. For the number 2.5 the guard of lines 72-78 lets
  the call pass, and the array has no element at the index 1.5: a valid instance returns
  \<^verbatim>\<open>undefined\<close>, not \<^verbatim>\<open>null\<close>.
\<close>

theorem level_of_fraction:
  "fst (constructor registry0 (Str ''10'') None heap0) = Return energy
   \<and> GICS_level energy (Number (5 / 2)) = Undefined"
  using fst_construct_energy by (simp add: GICS_level_def element_def energy_def)


section \<open>Children of an instance\<close>

text \<open>
  Claim C6. For an instance built from a valid code \<open>s\<close>, \<^verbatim>\<open>getChildren(d)\<close>
  returns, in table order, the objects of exactly the keys that start with \<open>s\<close> and
  whose level is the level of \<open>s\<close> plus \<open>d\<close>. In a well-formed table such a key is
  \<open>2 * d\<close> characters longer than \<open>s\<close>, so the result holds the descendants exactly
  \<open>d\<close> levels below and no others, and for a code of 8 characters the result is empty
  for every depth other than 0, in particular for the default depth 1.
\<close>

theorem getChildren_of_valid:
  assumes "constructor reg (Str s) version h = (Return e, h')" and "isValid e"
    and "get_prop (definitions reg) (defName version) = Own t"
  shows "getChildren reg g e d = Return (map (childEntry g)
           (filter (\<lambda>ka. startsWith (fst ka) (Some s) \<and> level (Some (fst ka)) = level (Some s) + d) t))
       \<and> (wf_table t \<longrightarrow>
            (\<forall>ka \<in> set t. startsWith (fst ka) (Some s) \<and> level (Some (fst ka)) = level (Some s) + d
               \<longrightarrow> int (length (fst ka)) = int (length s) + 2 * d)
          \<and> (length s = 8 \<and> d \<noteq> 0 \<longrightarrow> getChildren reg g e d = Return []))"
proof -
  from constructor_Return(1,3)[OF assms(1)] assms(2,3)
  obtain a where e: "this_code e = Some s" "this_definition reg e = Own t" "map_of t s = Some a"
    and len: "length s = 2 \<or> length s = 4 \<or> length s = 6 \<or> length s = 8"
    by (auto simp: this_definition_def)
  have eq: "(\<lambda>ka. startsWith (fst ka) (Some s) \<and> level (Some s) + d = level (Some (fst ka)))
      = (\<lambda>ka. startsWith (fst ka) (Some s) \<and> level (Some (fst ka)) = level (Some s) + d)"
    by auto
  have 1: "getChildren reg g e d = Return (map (childEntry g)
           (filter (\<lambda>ka. startsWith (fst ka) (Some s) \<and> level (Some (fst ka)) = level (Some s) + d) t))"
    using e assms(2) by (simp add: getChildren_Own eq)
  have 2: "int (length (fst ka)) = int (length s) + 2 * d"
    if wf: "wf_table t" and "ka \<in> set t" "level (Some (fst ka)) = level (Some s) + d" for ka
  proof -
    from wf_table_length[OF wf that(2)] have "2 * level (Some (fst ka)) = int (length (fst ka))"
      by (rule level_key)
    moreover from len have "2 * level (Some s) = int (length s)" by (rule level_key)
    ultimately show ?thesis using that(3) by simp
  qed
  have 3: "getChildren reg g e d = Return []" if wf: "wf_table t" and top: "length s = 8" "d \<noteq> 0"
  proof -
    have "\<not> (startsWith (fst ka) (Some s) \<and> level (Some (fst ka)) = level (Some s) + d)"
      if ka: "ka \<in> set t" for ka
    proof
      assume h: "startsWith (fst ka) (Some s) \<and> level (Some (fst ka)) = level (Some s) + d"
      with 2[OF wf ka] have l: "int (length (fst ka)) = int (length s) + 2 * d" by simp
      from h have "length s \<le> length (fst ka)"
        by (auto simp: startsWith_def) (metis length_take min.cobounded1)
      moreover from wf_table_length[OF wf ka] have "length (fst ka) \<le> 8" by auto
      ultimately show False using l top by simp
    qed
    then have "filter (\<lambda>ka. startsWith (fst ka) (Some s) \<and> level (Some (fst ka)) = level (Some s) + d) t = []"
      by (simp add: filter_empty_conv)
    with 1 show ?thesis by simp
  qed
  from 1 2 3 show ?thesis by blast
qed

theorem getChildren_of_valid_witness:
  "fst (constructor registry0 (Str ''10'') None heap0) = Return energy \<and> isValid energy
   \<and> get_prop (definitions registry0) (defName None) = Own table0 \<and> wf_table table0
   \<and> getChildren registry0 heap0 energy 1 =
       Return [\<lparr>name = ''Energy'', description = None, code = Some ''1010''\<rparr>]"
proof -
  have v: "isValid energy"
    by (simp add: energy_def)
  from getChildren_of_valid[OF construct_energy v default0, of heap0 1]
  have "getChildren registry0 heap0 energy 1 =
       Return [\<lparr>name = ''Energy'', description = None, code = Some ''1010''\<rparr>]"
    by (simp add: table0_def startsWith_def level_def childEntry_def heap0_def)
  with fst_construct_energy v default0 wf_table0 show ?thesis
    by simp
qed

text \<open>
  Claim C9. For an invalid instance (for example the empty one) whose version names a
  table, \<^verbatim>\<open>getChildren(d)\<close> returns, in table order, the objects of exactly the keys
  whose level is \<open>d\<close>; in a well-formed table \<^verbatim>\<open>getChildren(1)\<close> returns those of
  exactly the keys of 2 characters.
\<close>

theorem getChildren_of_invalid:
  assumes "constructor reg c version h = (Return e, h')" and "\<not> isValid e"
    and "get_prop (definitions reg) (defName version) = Own t"
  shows "getChildren reg g e d = Return (map (childEntry g) (filter (\<lambda>ka. level (Some (fst ka)) = d) t))
       \<and> (wf_table t \<longrightarrow>
            getChildren reg g e 1 = Return (map (childEntry g) (filter (\<lambda>ka. length (fst ka) = 2) t)))"
proof -
  from constructor_Return(1)[OF assms(1)] assms(3)
  have e: "this_definition reg e = Own t"
    by (simp add: this_definition_def)
  have "filter (\<lambda>ka. level (Some (fst ka)) = 1) t = filter (\<lambda>ka. length (fst ka) = 2) t"
    if wf: "wf_table t"
  proof (intro filter_cong[OF refl])
    fix ka assume "ka \<in> set t"
    from wf_table_length[OF wf this]
    show "(level (Some (fst ka)) = 1) = (length (fst ka) = 2)"
      by (auto simp: level_def)
  qed
  with e assms(2) show ?thesis
    by (simp add: getChildren_Own)
qed

theorem getChildren_of_invalid_witness:
  "constructor registry0 NotString None heap0 = (Return (invalid ''default''), heap0)
   \<and> \<not> isValid (invalid ''default'')
   \<and> get_prop (definitions registry0) (defName None) = Own table0 \<and> wf_table table0
   \<and> getChildren registry0 heap0 (invalid ''default'') 1 =
       Return [\<lparr>name = ''Energy'', description = None, code = Some ''10''\<rparr>,
               \<lparr>name = ''Materials'', description = None, code = Some ''15''\<rparr>]"
proof -
  have v: "\<not> isValid (invalid ''default'')"
    by (simp add: invalid_def)
  from getChildren_of_invalid[OF construct_empty v default0, of heap0 1] wf_table0
  have "getChildren registry0 heap0 (invalid ''default'') 1 =
       Return [\<lparr>name = ''Energy'', description = None, code = Some ''10''\<rparr>,
               \<lparr>name = ''Materials'', description = None, code = Some ''15''\<rparr>]"
    by (simp add: table0_def level_def childEntry_def heap0_def)
  with construct_empty v default0 wf_table0 show ?thesis
    by simp
qed

text \<open>
  Claim C10. Over a well-formed table, \<^verbatim>\<open>getChildren(0)\<close> of a valid instance with
  code \<open>s\<close> is the one object made of \<open>s\<close> and of the name and description of the
  entry of \<open>s\<close>, and \<^verbatim>\<open>getChildren(0)\<close> of an invalid instance is empty.
\<close>

theorem getChildren_zero:
  assumes "constructor reg c version h = (Return e, h')"
    and "get_prop (definitions reg) (defName version) = Own t" and "wf_table t"
  shows "if isValid e
         then \<exists>s a. c = Str s \<and> map_of t s = Some a \<and>
                getChildren reg g e 0 =
                  Return [\<lparr>name = name (g a), description = description (g a), code = Some s\<rparr>]
         else getChildren reg g e 0 = Return []"
proof (cases "isValid e")
  case True
  from constructor_Return(1,3)[OF assms(1)] True assms(2)
  obtain s a where e: "c = Str s" "this_code e = Some s" "this_definition reg e = Own t" "map_of t s = Some a"
    and len: "length s = 2 \<or> length s = 4 \<or> length s = 6 \<or> length s = 8"
    by (auto simp: this_definition_def)
  have "(startsWith (fst ka) (Some s) \<and> level (Some s) + 0 = level (Some (fst ka))) = (fst ka = s)"
    if ka: "ka \<in> set t" for ka
  proof -
    from wf_table_length[OF assms(3) ka] have k: "2 * level (Some (fst ka)) = int (length (fst ka))"
      by (rule level_key)
    from len have "2 * level (Some s) = int (length s)" by (rule level_key)
    with k have "level (Some s) = level (Some (fst ka)) \<longleftrightarrow> length s = length (fst ka)"
      by linarith
    then show ?thesis by (auto simp: startsWith_def)
  qed
  then have "filter (\<lambda>ka. startsWith (fst ka) (Some s) \<and> level (Some s) + 0 = level (Some (fst ka))) t
      = filter (\<lambda>ka. fst ka = s) t"
    by (intro filter_cong[OF refl])
  also from assms(3) e(4) have "\<dots> = [(s, a)]"
    by (simp add: filter_key wf_table_def)
  finally show ?thesis using True e
    by (auto simp: getChildren_Own childEntry_def)
next
  case False
  from constructor_Return(1)[OF assms(1)] assms(2)
  have e: "this_definition reg e = Own t"
    by (simp add: this_definition_def)
  have "level (Some (fst ka)) \<noteq> 0" if "ka \<in> set t" for ka
    using wf_table_length[OF assms(3) that] by (auto simp: level_def)
  then have "filter (\<lambda>ka. level (Some (fst ka)) = 0) t = []"
    by (simp add: filter_empty_conv)
  with False e show ?thesis by (simp add: getChildren_Own)
qed


theorem getChildren_zero_witness:
  "fst (constructor registry0 (Str ''10'') None heap0) = Return energy
   \<and> get_prop (definitions registry0) (defName None) = Own table0 \<and> wf_table table0
   \<and> isValid energy
   \<and> getChildren registry0 heap0 energy 0 =
       Return [\<lparr>name = ''Energy'', description = None, code = Some ''10''\<rparr>]"
proof -
  have v: "isValid energy"
    by (simp add: energy_def)
  from getChildren_zero[OF construct_energy default0 wf_table0, of heap0] v
  have "getChildren registry0 heap0 energy 0 =
       Return [\<lparr>name = ''Energy'', description = None, code = Some ''10''\<rparr>]"
    by (simp add: table0_def heap0_def)
  with fst_construct_energy v default0 wf_table0 show ?thesis
    by simp
qed

section \<open>Relations and search\<close>

text \<open>
  Claim C8. \<^verbatim>\<open>b.isImmediateWithin(a)\<close> is true exactly when \<^verbatim>\<open>b.isWithin(a)\<close> is
  true and the code of \<open>b\<close> is 2 characters longer than the code of \<open>a\<close>; when
  \<^verbatim>\<open>b.isWithin(a)\<close> is true and the difference is 4, it is false.
\<close>

theorem isImmediateWithin_iff:
  "(isImmediateWithin b a = Return True \<longleftrightarrow>
      isWithin b a = Return True \<and>
      (\<exists>cb ca. this_code b = Some cb \<and> this_code a = Some ca
         \<and> int (length cb) - int (length ca) = 2))
   \<and> (isWithin b a = Return True \<and> this_code b = Some cb \<and> this_code a = Some ca
        \<and> int (length cb) - int (length ca) = 4
       \<longrightarrow> isImmediateWithin b a = Return False)"
  by (auto simp: isImmediateWithin_def isWithin_def split: option.splits)

theorem isImmediateWithin_iff_witness:
  "fst (constructor registry0 (Str ''101010'') None heap0) = Return energyEquipment
   \<and> fst (constructor registry0 (Str ''1010'') None heap0) = Return energyGroup
   \<and> fst (constructor registry0 (Str ''10'') None heap0) = Return energy
   \<and> isWithin energyEquipment energy = Return True
   \<and> this_code energyEquipment = Some ''101010'' \<and> this_code energy = Some ''10''
   \<and> int (length ''101010'') - int (length ''10'') = 4
   \<and> isImmediateWithin energyEquipment energy = Return False
   \<and> isWithin energyGroup energy = Return True
   \<and> isImmediateWithin energyGroup energy = Return True"
  using isImmediateWithin_iff[of energyEquipment energy "''101010''" "''10''"]
    isImmediateWithin_iff[of energyGroup energy]
    construct_energyEquipment construct_energyGroup fst_construct_energy
  by (simp add: isWithin_def startsWith_def energy_def energyEquipment_def energyGroup_def)

text \<open>
  Claim C7. \<^verbatim>\<open>findChild(name)\<close> on a constructed instance always returns. There is
  a depth \<open>d\<close>, at least 1, at which the search stops: every depth from 1 up to
  \<open>d\<close> (exclusive) has children and none of them has the name; at \<open>d\<close> either
  there are no children and the result is \<^verbatim>\<open>null\<close>, or some child has the name and
  the result is the first such child in the order of \<^verbatim>\<open>getChildren(d)\<close>, which is
  the order of the table. Over a well-formed table a level without children has none
  below it, so \<^verbatim>\<open>null\<close> is returned only when no child at any depth has the name.
\<close>

theorem findChild_breadth_first:
  assumes "constructor reg c version h = (Return e, h')"
  shows "\<exists>d cs. 1 \<le> d \<and> getChildren reg g e d = Return cs
      \<and> (\<forall>d'. 1 \<le> d' \<and> d' < d \<longrightarrow>
            (\<exists>cs'. getChildren reg g e d' = Return cs' \<and> cs' \<noteq> []
                 \<and> find (\<lambda>child. name child = nm) cs' = None))
      \<and> (cs \<noteq> [] \<longrightarrow> find (\<lambda>child. name child = nm) cs \<noteq> None)
      \<and> findChild reg g e nm =
          Return (if cs = [] then None else find (\<lambda>child. name child = nm) cs)
      \<and> (get_prop (definitions reg) (defName version) = Own t \<and> wf_table t \<and> cs = [] \<longrightarrow>
            (\<forall>d' cs'. 1 \<le> d' \<and> getChildren reg g e d' = Return cs' \<longrightarrow>
               find (\<lambda>child. name child = nm) cs' = None))"
proof -
  let ?P = "\<lambda>child. name child = nm"
  from constructor_Return(2)[OF assms]
  have "\<exists>cs. getChildren reg g e d = Return cs" for d
    by (auto simp: getChildren_def split: property.splits)
  from findDeep_search[of reg g e 1 nm, OF this]
  obtain d cs where d: "1 \<le> d" "getChildren reg g e d = Return cs"
    and above: "\<forall>d'. 1 \<le> d' \<and> d' < d \<longrightarrow>
            (\<exists>cs'. getChildren reg g e d' = Return cs' \<and> cs' \<noteq> [] \<and> find ?P cs' = None)"
    and hit: "cs \<noteq> [] \<longrightarrow> find ?P cs \<noteq> None"
    and res: "findChild reg g e nm = Return (if cs = [] then None else find ?P cs)"
    by (auto simp: findChild_def)
  have "find ?P cs' = None"
    if t: "get_prop (definitions reg) (defName version) = Own t" "wf_table t" and e: "cs = []"
      and d': "1 \<le> d'" "getChildren reg g e d' = Return cs'" for d' cs'
  proof (cases "d' < d")
    case True
    with above d' show ?thesis by auto
  next
    case False
    then have "d' = d + int (nat (d' - d))" by simp
    with getChildren_empty_below[OF assms t d(1), of g "nat (d' - d)"] d(2) e
    have "getChildren reg g e d' = Return []" by simp
    with d' show ?thesis by simp
  qed
  with d above hit res show ?thesis by blast
qed

theorem findChild_breadth_first_witness:
  "fst (constructor registry0 (Str ''10'') None heap0) = Return energy
   \<and> findChild registry0 heap0 energy ''Oil & Gas Drilling'' =
       Return (Some \<lparr>name = ''Oil & Gas Drilling'', description = Some ''Drilling contractors'',
                     code = Some ''10101010''\<rparr>)
   \<and> (\<exists>d cs. 1 \<le> d \<and> getChildren registry0 heap0 energy d = Return cs \<and> cs \<noteq> []
        \<and> find (\<lambda>child. name child = ''Oil & Gas Drilling'') cs =
            Some \<lparr>name = ''Oil & Gas Drilling'', description = Some ''Drilling contractors'',
                  code = Some ''10101010''\<rparr>)"
proof -
  from findChild_breadth_first[OF construct_energy, of heap0 "''Oil & Gas Drilling''"]
  obtain d cs where "1 \<le> d" "getChildren registry0 heap0 energy d = Return cs"
    and "findChild registry0 heap0 energy ''Oil & Gas Drilling'' =
          Return (if cs = [] then None
                  else find (\<lambda>child. name child = ''Oil & Gas Drilling'') cs)"
    by blast
  with findChild_drilling
  have "\<exists>d cs. 1 \<le> d \<and> getChildren registry0 heap0 energy d = Return cs \<and> cs \<noteq> []
        \<and> find (\<lambda>child. name child = ''Oil & Gas Drilling'') cs =
            Some \<lparr>name = ''Oil & Gas Drilling'', description = Some ''Drilling contractors'',
                  code = Some ''10101010''\<rparr>"
    by (intro exI[of _ d] exI[of _ cs]) (auto split: if_splits)
  with fst_construct_energy findChild_drilling show ?thesis
    by simp
qed

end
